theory Spec2Isabelle
  imports Main "HOL-Library.Word"
begin

section \<open>The TCP network layer (src/plugins/ua\_network\_tcp.c)\<close>

subsection \<open>Status codes, connections and byte strings\<close>

datatype UA_StatusCode =
    UA_STATUSCODE_GOOD
  | UA_STATUSCODE_BADINTERNALERROR
  | UA_STATUSCODE_BADCONNECTIONCLOSED

datatype UA_ConnectionState =
    UA_CONNECTION_OPENING
  | UA_CONNECTION_ESTABLISHED
  | UA_CONNECTION_CLOSED

text \<open>The values of \<open>errno\<close> that \<open>connection_write\<close> tells apart: \<open>INTERRUPTED\<close>
  and \<open>AGAIN\<close> are retried, every other value is fatal.\<close>

datatype errno = INTERRUPTED | AGAIN | Errno_other nat

text \<open>Of \<open>UA_Connection\<close> the fields \<open>state\<close> and \<open>sockfd\<close>, which are all that
  \<open>connection_write\<close> and \<open>connection_close\<close> use. With them the record keeps what the
  socket behind \<open>sockfd\<close> was given: \<open>sent\<close> are the bytes that \<open>send\<close> took, in order,
  and \<open>shutdowns\<close> counts the calls of \<open>shutdown\<close>.

  A \<open>UA_ByteString\<close> is its \<open>data\<close> (the field \<open>length\<close> is the length of the array);
  \<open>released\<close> counts the calls of \<open>UA_ByteString_deleteMembers\<close> on it.\<close>

record UA_Connection =
  state :: UA_ConnectionState
  sockfd :: int
  sent :: "8 word list"
  shutdowns :: nat

record UA_ByteString =
  data :: "8 word list"
  released :: nat

text \<open>\<open>buf->length\<close> is the length of the data array.\<close>

definition buf_length :: "UA_ByteString \<Rightarrow> nat" where
  "buf_length buf = length (data buf)"

text \<open>\<open>UA_ByteString_deleteMembers\<close> is declared in the types header, outside the source
  file: it frees the data array and leaves the empty byte string. Each call is
  counted.\<close>

definition UA_ByteString_deleteMembers :: "UA_ByteString \<Rightarrow> UA_ByteString" where
  "UA_ByteString_deleteMembers buf = buf\<lparr>data := [], released := released buf + 1\<rparr>"

definition connection_close :: "UA_Connection \<Rightarrow> UA_Connection" where
  "connection_close connection =
     connection\<lparr>shutdowns := shutdowns connection + 1, state := UA_CONNECTION_CLOSED\<rparr>"

subsection \<open>connection\_write\<close>

text \<open>The operating system is a script: the \<open>k\<close>-th call of \<open>send\<close> returns
  \<open>fst (os k)\<close> and leaves \<open>snd (os k)\<close> in \<open>errno\<close>. A return value \<open>n \<ge> 0\<close> means that
  the first \<open>n\<close> of the offered bytes were taken by the socket.

  The two nested do-while loops of the source are one recursion: a negative return with
  a retryable \<open>errno\<close> repeats \<open>send\<close> with the same \<open>nWritten\<close> (inner loop), a
  non-negative one advances \<open>nWritten\<close> and repeats while bytes are left (outer
  loop). A script that never lets the loops finish gives \<open>None\<close>.\<close>

partial_function (option) write_loop ::
  "(nat \<Rightarrow> int \<times> errno) \<Rightarrow> nat \<Rightarrow> UA_Connection \<Rightarrow> UA_ByteString \<Rightarrow> nat \<Rightarrow>
     (UA_StatusCode \<times> UA_Connection \<times> UA_ByteString) option" where
  "write_loop os k connection buf nWritten =
     (let bytes_to_send = buf_length buf - nWritten;
          n = fst (os k);
          err = snd (os k)
      in if n < 0 \<and> err \<noteq> INTERRUPTED \<and> err \<noteq> AGAIN then
           Some (UA_STATUSCODE_BADCONNECTIONCLOSED, connection_close connection,
                 UA_ByteString_deleteMembers buf)
         else if n < 0 then write_loop os (k + 1) connection buf nWritten
         else
           let connection' = connection\<lparr>sent := sent connection @
                                 take (nat n) (take bytes_to_send (drop nWritten (data buf)))\<rparr>;
               nWritten' = nWritten + nat n
           in if nWritten' < buf_length buf
              then write_loop os (k + 1) connection' buf nWritten'
              else Some (UA_STATUSCODE_GOOD, connection', UA_ByteString_deleteMembers buf))"

definition connection_write ::
  "(nat \<Rightarrow> int \<times> errno) \<Rightarrow> UA_Connection \<Rightarrow> UA_ByteString \<Rightarrow>
     (UA_StatusCode \<times> UA_Connection \<times> UA_ByteString) option" where
  "connection_write os connection buf = write_loop os 0 connection buf 0"

subsection \<open>The server sockets\<close>

text \<open>Of \<open>ServerNetworkLayerTCP\<close> the fields that \<open>addServerSocket\<close> and
  \<open>ServerNetworkLayerTCP_start\<close> use. \<open>serverSockets\<close> is the array
  \<open>UA_Int32 serverSockets[FD_SETSIZE]\<close>, \<open>serverSocketsSize\<close> is a \<open>UA_UInt16\<close>.\<close>

record ServerNetworkLayerTCP =
  port :: "16 word"
  serverSockets :: "int list"
  serverSocketsSize :: "16 word"

text \<open>One \<open>struct addrinfo\<close> of the list that \<open>getaddrinfo\<close> returned, together with
  what the system calls made for it return (the branch for POSIX sockets, where a
  \<open>SOCKET\<close> is an \<open>int\<close>). On its failure paths \<open>addServerSocket\<close> closes the new socket
  and returns; the layer is not touched.\<close>

record addrinfo =
  ai_is_inet6 :: bool
  socket_ret :: int
  setsockopt_v6only_ret :: int
  setsockopt_reuseaddr_ret :: int
  fcntl_getfl_ret :: int
  fcntl_setfl_ret :: int
  bind_ret :: int
  listen_ret :: int

definition socket_set_nonblocking :: "addrinfo \<Rightarrow> UA_StatusCode" where
  "socket_set_nonblocking ai =
     (if fcntl_getfl_ret ai < 0 \<or> fcntl_setfl_ret ai < 0
      then UA_STATUSCODE_BADINTERNALERROR else UA_STATUSCODE_GOOD)"

text \<open>A write past the end of \<open>serverSockets\<close> is undefined behaviour in C; the model
  makes it the fault \<open>OutOfBounds\<close>.\<close>

datatype fault = OutOfBounds

definition addServerSocket ::
  "ServerNetworkLayerTCP \<Rightarrow> addrinfo \<Rightarrow> fault + ServerNetworkLayerTCP" where
  "addServerSocket layer ai =
     (let newsock = socket_ret ai
      in if newsock < 0 then Inr layer
         else if ai_is_inet6 ai \<and> setsockopt_v6only_ret ai = - 1 then Inr layer
         else if setsockopt_reuseaddr_ret ai = - 1 then Inr layer
         else if socket_set_nonblocking ai \<noteq> UA_STATUSCODE_GOOD then Inr layer
         else if bind_ret ai < 0 then Inr layer
         else if listen_ret ai < 0 then Inr layer
         else if unat (serverSocketsSize layer) < length (serverSockets layer) then
           Inr (layer\<lparr>serverSockets :=
                         (serverSockets layer)[unat (serverSocketsSize layer) := newsock],
                      serverSocketsSize := serverSocketsSize layer + 1\<rparr>)
         else Inl OutOfBounds)"

text \<open>The loop of \<open>ServerNetworkLayerTCP_start\<close> over the \<open>ai_next\<close> chain.
  \<open>FD_SETSIZE\<close> comes from the system headers and is a parameter.\<close>

fun start_loop ::
  "nat \<Rightarrow> ServerNetworkLayerTCP \<Rightarrow> addrinfo list \<Rightarrow> fault + ServerNetworkLayerTCP" where
  "start_loop FD_SETSIZE layer [] = Inr layer"
| "start_loop FD_SETSIZE layer (ai # ai_next) =
     (if unat (serverSocketsSize layer) < FD_SETSIZE then
        (case addServerSocket layer ai of
           Inl f \<Rightarrow> Inl f
         | Inr layer' \<Rightarrow> start_loop FD_SETSIZE layer' ai_next)
      else Inr layer)"

definition ServerNetworkLayerTCP_start ::
  "nat \<Rightarrow> ServerNetworkLayerTCP \<Rightarrow> addrinfo list \<Rightarrow> fault + ServerNetworkLayerTCP" where
  "ServerNetworkLayerTCP_start FD_SETSIZE layer res =
     start_loop FD_SETSIZE (layer\<lparr>serverSocketsSize := 0\<rparr>) res"

subsection \<open>Scripts and inputs used as concrete instances\<close>

text \<open>A result of \<open>send\<close> makes progress when it takes at least one byte or fails for good;
  a retry (\<open>INTERRUPTED\<close>, \<open>AGAIN\<close>) and a send of zero bytes do not.\<close>

definition send_progress :: "int \<times> errno \<Rightarrow> bool" where
  "send_progress ret =
     (0 < fst ret \<or> (fst ret < 0 \<and> snd ret \<noteq> INTERRUPTED \<and> snd ret \<noteq> AGAIN))"

text \<open>A socket whose send buffer stays full: every \<open>send\<close> fails with \<open>AGAIN\<close>.\<close>

definition always_again :: "nat \<Rightarrow> int \<times> errno" where
  "always_again k = (- 1, AGAIN)"

text \<open>A socket that is busy once and then takes two bytes per call.\<close>

definition again_then_two_per_call :: "nat \<Rightarrow> int \<times> errno" where
  "again_then_two_per_call k = (if k = 0 then (- 1, AGAIN) else (2, Errno_other 0))"

text \<open>A socket that takes one byte and then fails with a fatal error (32, a broken pipe).\<close>

definition closed_on_second :: "nat \<Rightarrow> int \<times> errno" where
  "closed_on_second k = (if k = 0 then (1, Errno_other 0) else (- 1, Errno_other 32))"

definition established :: UA_Connection where
  "established = \<lparr>state = UA_CONNECTION_ESTABLISHED, sockfd = 3, sent = [], shutdowns = 0\<rparr>"

definition three_bytes :: UA_ByteString where
  "three_bytes = \<lparr>data = [1, 2, 3], released = 0\<rparr>"

text \<open>A layer whose socket array has two slots (\<open>FD_SETSIZE = 2\<close>) and whose size field
  holds a stale value, and address records whose system calls all succeed or whose
  \<open>bind\<close> fails.\<close>

definition two_slots :: ServerNetworkLayerTCP where
  "two_slots = \<lparr>port = 4840, serverSockets = [0, 0], serverSocketsSize = 7\<rparr>"

definition listening :: "int \<Rightarrow> addrinfo" where
  "listening fd = \<lparr>ai_is_inet6 = False, socket_ret = fd, setsockopt_v6only_ret = 0,
     setsockopt_reuseaddr_ret = 0, fcntl_getfl_ret = 2, fcntl_setfl_ret = 0, bind_ret = 0,
     listen_ret = 0\<rparr>"

definition bind_fails :: "int \<Rightarrow> addrinfo" where
  "bind_fails fd = (listening fd)\<lparr>bind_ret := - 1\<rparr>"

section \<open>The reference index of the address space\<close>

text \<open>Modelled from the spec: the node store and the AddReference service
  (\<open>UA_Server_addReference\<close> and the node store behind it) are not among the source
  files; src/unnamed/part\_000 only calls them from its tests. The definitions of this
  section follow sections 3, 4.2, 4.3 and 4.7 of the specification.\<close>

text \<open>Modelled from the spec: a NodeId is a namespace index with a numeric, string, GUID
  or opaque identifier (section 3).\<close>

datatype Identifier = Numeric nat | StringId string | Guid nat | Opaque "8 word list"

datatype NodeId = NodeId (namespaceIndex: nat) (ident: Identifier)

text \<open>Modelled from the spec: a QualifiedName is a namespace index and a name.\<close>

record QualifiedName =
  qn_namespaceIndex :: nat
  qn_name :: string

text \<open>Modelled from the spec: the eight node classes (section 3).\<close>

datatype NodeClass = Object | ObjectType | Variable | VariableType | ReferenceType | DataType
  | Method | View

text \<open>Modelled from the spec: the status codes of section 6, and
  \<open>BadDuplicateReferenceNotAllowed\<close> of section 8.\<close>

datatype StatusCode = Good | BadNodeIdExists | BadNodeIdInvalid | BadParentNodeIdInvalid
  | BadReferenceTypeIdInvalid | BadTypeDefinitionInvalid | BadBrowseNameDuplicated | BadNotFound
  | BadOutOfMemory | BadInternalError | BadDuplicateReferenceNotAllowed

text \<open>Modelled from the spec: a reference \<open>(sourceId, referenceTypeId, targetId, isForward)\<close>
  is stored in the reference lists of both endpoints with opposing \<open>isForward\<close>. An entry
  of a node's list leaves the source out: it is the node that holds the entry.\<close>

record Reference =
  referenceTypeId :: NodeId
  targetId :: NodeId
  isForward :: bool

text \<open>Modelled from the spec: the attributes every node has (section 3). The attributes
  of the single node classes play no part in the reference index.\<close>

record Node =
  nodeId :: NodeId
  nodeClass :: NodeClass
  browseName :: QualifiedName
  displayName :: string
  description :: string
  writeMask :: nat
  userWriteMask :: nat
  references :: "Reference list"

text \<open>Modelled from the spec: the node store owns the nodes, keyed by identifier.\<close>

type_synonym NodeStore = "NodeId \<Rightarrow> Node option"

text \<open>Modelled from the spec: the entry that the other endpoint stores for the entry \<open>r\<close>
  held by \<open>holder\<close>: same reference type, pointing back, opposing direction.\<close>

definition opposing :: "NodeId \<Rightarrow> Reference \<Rightarrow> Reference" where
  "opposing holder r =
     \<lparr>referenceTypeId = referenceTypeId r, targetId = holder, isForward = (\<not> isForward r)\<rparr>"

text \<open>Modelled from the spec: whether, and how often, the reference list of the node
  \<open>holder\<close> has the entry \<open>r\<close>. A node that is not in the store holds nothing.\<close>

definition holds_reference :: "NodeStore \<Rightarrow> NodeId \<Rightarrow> Reference \<Rightarrow> bool" where
  "holds_reference store holder r =
     (case store holder of None \<Rightarrow> False | Some n \<Rightarrow> r \<in> set (references n))"

definition count_reference :: "NodeStore \<Rightarrow> NodeId \<Rightarrow> Reference \<Rightarrow> nat" where
  "count_reference store holder r =
     (case store holder of None \<Rightarrow> 0 | Some n \<Rightarrow> count_list (references n) r)"

text \<open>Modelled from the spec: one endpoint of a reference is installed by appending the
  entry to the holder's reference list.\<close>

definition install_endpoint :: "NodeStore \<Rightarrow> NodeId \<Rightarrow> Reference \<Rightarrow> NodeStore" where
  "install_endpoint store holder r =
     (case store holder of
        None \<Rightarrow> store
      | Some n \<Rightarrow> store(holder \<mapsto> n\<lparr>references := references n @ [r]\<rparr>))"

text \<open>Modelled from the spec: AddReference (section 4.7) validates the existence of the
  source, the reference type and the target, rejects the reference if the pair is
  already there, and installs both endpoints. Section 4.3 has insertion reject
  duplicates, so an entry already held by either endpoint rejects the call. The spec
  names no status code for a missing node; the ones of section 6 are used.\<close>

definition AddReference ::
  "NodeStore \<Rightarrow> NodeId \<Rightarrow> NodeId \<Rightarrow> NodeId \<Rightarrow> bool \<Rightarrow> StatusCode \<times> NodeStore" where
  "AddReference store sourceId refTypeId target forward =
     (let r = \<lparr>referenceTypeId = refTypeId, targetId = target, isForward = forward\<rparr>
      in if store sourceId = None then (BadNodeIdInvalid, store)
         else if store refTypeId = None then (BadReferenceTypeIdInvalid, store)
         else if store target = None then (BadNodeIdInvalid, store)
         else if holds_reference store sourceId r \<or>
                 holds_reference store target (opposing sourceId r)
           then (BadDuplicateReferenceNotAllowed, store)
         else (Good, install_endpoint (install_endpoint store sourceId r) target
                       (opposing sourceId r)))"

text \<open>Modelled from the spec: the data model's rules for reference lists (section 3): no
  list holds an entry twice, and an entry whose target is in the store has its opposing
  entry in the target's list.\<close>

definition reference_lists_consistent :: "NodeStore \<Rightarrow> bool" where
  "reference_lists_consistent store =
     (\<forall>holder n. store holder = Some n \<longrightarrow>
        distinct (references n) \<and>
        (\<forall>r \<in> set (references n). \<forall>t. store (targetId r) = Some t \<longrightarrow>
           opposing holder r \<in> set (references t)))"

text \<open>A store with the Objects folder, the reference type Organizes and the variable of
  the test \<open>AddVariableNode\<close>, none of them holding a reference yet.\<close>

definition bare_node :: "NodeId \<Rightarrow> NodeClass \<Rightarrow> string \<Rightarrow> Node" where
  "bare_node i c name =
     \<lparr>nodeId = i, nodeClass = c, browseName = \<lparr>qn_namespaceIndex = namespaceIndex i, qn_name = name\<rparr>,
      displayName = name, description = [], writeMask = 0, userWriteMask = 0, references = []\<rparr>"

definition ObjectsFolder :: NodeId where
  "ObjectsFolder = NodeId 0 (Numeric 85)"

definition Organizes :: NodeId where
  "Organizes = NodeId 0 (Numeric 35)"

definition the_answer :: NodeId where
  "the_answer = NodeId 1 (StringId ''the.answer'')"

definition three_nodes :: NodeStore where
  "three_nodes =
     [ObjectsFolder \<mapsto> bare_node ObjectsFolder Object ''Objects'',
      Organizes \<mapsto> bare_node Organizes ReferenceType ''Organizes'',
      the_answer \<mapsto> bare_node the_answer Variable ''the answer'']"

section \<open>Properties of the TCP network layer\<close>

subsection \<open>The server socket array stays within bounds\<close>

lemma unat_inc_le: "unat (x + 1 :: 16 word) \<le> unat x + 1"
  by (simp add: unat_word_ariths)

lemma addServerSocket_in_bounds:
  assumes "unat (serverSocketsSize layer) < length (serverSockets layer)"
  shows "\<exists>layer'. addServerSocket layer ai = Inr layer' \<and>
           length (serverSockets layer') = length (serverSockets layer) \<and>
           (serverSocketsSize layer' = serverSocketsSize layer \<or>
            serverSocketsSize layer' = serverSocketsSize layer + 1)"
  using assms by (simp add: addServerSocket_def Let_def)

lemma addServerSocket_size:
  assumes "addServerSocket layer ai = Inr layer'"
  shows "serverSocketsSize layer' = serverSocketsSize layer \<or>
         serverSocketsSize layer' = serverSocketsSize layer + 1"
  using assms by (auto simp: addServerSocket_def Let_def split: if_splits)

lemma start_loop_in_bounds:
  assumes "length (serverSockets layer) = FD_SETSIZE"
    and "unat (serverSocketsSize layer) \<le> FD_SETSIZE"
  shows "\<exists>layer'. start_loop FD_SETSIZE layer res = Inr layer' \<and>
           unat (serverSocketsSize layer') \<le> FD_SETSIZE \<and>
           length (serverSockets layer') = FD_SETSIZE"
  using assms
proof (induction res arbitrary: layer)
  case Nil
  then show ?case by simp
next
  case (Cons ai ai_next)
  show ?case
  proof (cases "unat (serverSocketsSize layer) < FD_SETSIZE")
    case False
    with Cons.prems show ?thesis by simp
  next
    case True
    with Cons.prems have "unat (serverSocketsSize layer) < length (serverSockets layer)" by simp
    from addServerSocket_in_bounds[OF this, of ai] obtain layer1 where
      l1: "addServerSocket layer ai = Inr layer1"
      "length (serverSockets layer1) = length (serverSockets layer)"
      "serverSocketsSize layer1 = serverSocketsSize layer \<or>
       serverSocketsSize layer1 = serverSocketsSize layer + 1" by blast
    have "unat (serverSocketsSize layer1) \<le> unat (serverSocketsSize layer) + 1"
      using l1(3) unat_inc_le[of "serverSocketsSize layer"] by auto
    with True have "unat (serverSocketsSize layer1) \<le> FD_SETSIZE" by simp
    moreover from l1(2) Cons.prems have "length (serverSockets layer1) = FD_SETSIZE" by simp
    ultimately obtain layer' where "start_loop FD_SETSIZE layer1 ai_next = Inr layer'"
      "unat (serverSocketsSize layer') \<le> FD_SETSIZE" "length (serverSockets layer') = FD_SETSIZE"
      using Cons.IH by blast
    with True l1(1) show ?thesis by simp
  qed
qed

text \<open>Claim C10. \<open>ServerNetworkLayerTCP_start\<close> keeps \<open>serverSocketsSize\<close> at most
  \<open>FD_SETSIZE\<close>: it calls \<open>addServerSocket\<close> only while \<open>serverSocketsSize < FD_SETSIZE\<close>,
  and \<open>addServerSocket\<close> leaves \<open>serverSocketsSize\<close> as it is or adds one to it. So for a
  layer whose array \<open>serverSockets\<close> has \<open>FD_SETSIZE\<close> slots, whatever the list of
  address records and whatever the system calls return, no write to
  \<open>serverSockets[serverSocketsSize]\<close> is out of bounds (the run ends in a layer, never in
  the fault \<open>OutOfBounds\<close>), and the final \<open>serverSocketsSize\<close> is at most \<open>FD_SETSIZE\<close>.
  The write of \<open>addServerSocket\<close> is within bounds whenever \<open>serverSocketsSize\<close> is below
  the length of the array, which is what the loop's guard checks before each call.\<close>

theorem serverSockets_in_bounds:
  assumes "length (serverSockets layer) = FD_SETSIZE"
  shows "(\<exists>layer'. ServerNetworkLayerTCP_start FD_SETSIZE layer res = Inr layer' \<and>
            unat (serverSocketsSize layer') \<le> FD_SETSIZE \<and>
            length (serverSockets layer') = FD_SETSIZE) \<and>
         (\<forall>l ai l'. addServerSocket l ai = Inr l' \<longrightarrow>
            serverSocketsSize l' = serverSocketsSize l \<or>
            serverSocketsSize l' = serverSocketsSize l + 1) \<and>
         (\<forall>l ai. unat (serverSocketsSize l) < length (serverSockets l) \<longrightarrow>
            addServerSocket l ai \<noteq> Inl OutOfBounds)"
proof (intro conjI)
  have "length (serverSockets (layer\<lparr>serverSocketsSize := 0\<rparr>)) = FD_SETSIZE"
    using assms by simp
  moreover have "unat (serverSocketsSize (layer\<lparr>serverSocketsSize := 0\<rparr>)) \<le> FD_SETSIZE"
    by simp
  ultimately show "\<exists>layer'. ServerNetworkLayerTCP_start FD_SETSIZE layer res = Inr layer' \<and>
            unat (serverSocketsSize layer') \<le> FD_SETSIZE \<and>
            length (serverSockets layer') = FD_SETSIZE"
    unfolding ServerNetworkLayerTCP_start_def by (rule start_loop_in_bounds)
next
  show "\<forall>l ai l'. addServerSocket l ai = Inr l' \<longrightarrow>
            serverSocketsSize l' = serverSocketsSize l \<or>
            serverSocketsSize l' = serverSocketsSize l + 1"
    using addServerSocket_size by blast
next
  show "\<forall>l ai. unat (serverSocketsSize l) < length (serverSockets l) \<longrightarrow>
            addServerSocket l ai \<noteq> Inl OutOfBounds"
  proof (intro allI impI)
    fix l :: ServerNetworkLayerTCP and ai :: addrinfo
    assume "unat (serverSocketsSize l) < length (serverSockets l)"
    from addServerSocket_in_bounds[OF this, of ai]
    obtain l' where "addServerSocket l ai = Inr l'" by blast
    then show "addServerSocket l ai \<noteq> Inl OutOfBounds" by simp
  qed
qed

text \<open>An instance with two slots: of four address records the first and third get a
  socket, the second fails to bind, and the fourth is never tried because the array is
  full. Called directly on a full array, \<open>addServerSocket\<close> would write out of bounds.\<close>

theorem serverSockets_in_bounds_witness:
  "length (serverSockets two_slots) = 2 \<and>
   ServerNetworkLayerTCP_start 2 two_slots [listening 5, bind_fails 6, listening 7, listening 8] =
     Inr \<lparr>port = 4840, serverSockets = [5, 7], serverSocketsSize = 2\<rparr> \<and>
   addServerSocket (two_slots\<lparr>serverSocketsSize := 1\<rparr>) (listening 7) =
     Inr \<lparr>port = 4840, serverSockets = [0, 7], serverSocketsSize = 2\<rparr> \<and>
   addServerSocket (two_slots\<lparr>serverSocketsSize := 2\<rparr>) (listening 8) = Inl OutOfBounds \<and>
   (\<exists>layer'. ServerNetworkLayerTCP_start 2 two_slots
                 [listening 5, bind_fails 6, listening 7, listening 8] = Inr layer' \<and>
              unat (serverSocketsSize layer') \<le> 2)"
proof -
  have len: "length (serverSockets two_slots) = 2" by (simp add: two_slots_def)
  have run: "ServerNetworkLayerTCP_start 2 two_slots
               [listening 5, bind_fails 6, listening 7, listening 8] =
             Inr \<lparr>port = 4840, serverSockets = [5, 7], serverSocketsSize = 2\<rparr>"
    by (simp add: ServerNetworkLayerTCP_start_def addServerSocket_def socket_set_nonblocking_def
        two_slots_def listening_def bind_fails_def Let_def)
  have one: "addServerSocket (two_slots\<lparr>serverSocketsSize := 1\<rparr>) (listening 7) =
     Inr \<lparr>port = 4840, serverSockets = [0, 7], serverSocketsSize = 2\<rparr>"
    by (simp add: addServerSocket_def socket_set_nonblocking_def
        two_slots_def listening_def Let_def)
  have oob: "addServerSocket (two_slots\<lparr>serverSocketsSize := 2\<rparr>) (listening 8) = Inl OutOfBounds"
    by (simp add: addServerSocket_def socket_set_nonblocking_def
        two_slots_def listening_def Let_def)
  from serverSockets_in_bounds[OF len, of "[listening 5, bind_fails 6, listening 7, listening 8]"]
  have "\<exists>layer'. ServerNetworkLayerTCP_start 2 two_slots
                 [listening 5, bind_fails 6, listening 7, listening 8] = Inr layer' \<and>
              unat (serverSocketsSize layer') \<le> 2" by blast
  with len run one oob show ?thesis by blast
qed

subsection \<open>connection\_write\<close>

text \<open>A call that returns has handed to the socket the bytes of the buffer from
  \<open>nWritten\<close> on, or has closed the connection after a prefix of them; the buffer was
  released on the way out.\<close>

lemma write_loop_partial:
  assumes "write_loop os k c buf nW = Some r"
  shows "snd (snd r) = UA_ByteString_deleteMembers buf \<and>
     ((fst r = UA_STATUSCODE_GOOD \<and> fst (snd r) = c\<lparr>sent := sent c @ drop nW (data buf)\<rparr>) \<or>
      (fst r = UA_STATUSCODE_BADCONNECTIONCLOSED \<and>
        (\<exists>m. fst (snd r) = connection_close (c\<lparr>sent := sent c @ take m (drop nW (data buf))\<rparr>))))"
proof (rule write_loop.raw_induct[where P = "\<lambda>os k c buf nW r. snd (snd r) = UA_ByteString_deleteMembers buf \<and>
     ((fst r = UA_STATUSCODE_GOOD \<and> fst (snd r) = c\<lparr>sent := sent c @ drop nW (data buf)\<rparr>) \<or>
      (fst r = UA_STATUSCODE_BADCONNECTIONCLOSED \<and>
        (\<exists>m. fst (snd r) = connection_close (c\<lparr>sent := sent c @ take m (drop nW (data buf))\<rparr>))))", OF _ assms], goal_cases)
  case (1 wl os k c buf nW r)
  note IH = "1"(1) and body = "1"(2)
  show ?case
  proof (cases "fst (os k) < 0")
    case neg: True
    show ?thesis
    proof (cases "snd (os k) \<noteq> INTERRUPTED \<and> snd (os k) \<noteq> AGAIN")
      case True
      with neg body have "r = (UA_STATUSCODE_BADCONNECTIONCLOSED, connection_close c,
                 UA_ByteString_deleteMembers buf)" by (auto simp: Let_def)
      moreover have "connection_close c = connection_close (c\<lparr>sent := sent c @ take 0 (drop nW (data buf))\<rparr>)"
        by simp
      ultimately show ?thesis by (metis fst_conv snd_conv)
    next
      case False
      with neg body have "wl os (k + 1) c buf nW = Some r" by (auto simp: Let_def)
      from IH[OF this] show ?thesis .
    qed
  next
    case nonneg: False
    define n where "n = nat (fst (os k))"
    define c1 where "c1 = c\<lparr>sent := sent c @ take n (take (buf_length buf - nW) (drop nW (data buf)))\<rparr>"
    have tk: "take n (take (buf_length buf - nW) (drop nW (data buf))) = take n (drop nW (data buf))"
      by (simp add: buf_length_def)
    show ?thesis
    proof (cases "nW + n < buf_length buf")
      case True
      with nonneg body have "wl os (k + 1) c1 buf (nW + n) = Some r"
        by (auto simp: Let_def n_def c1_def)
      from IH[OF this] have IH2: "snd (snd r) = UA_ByteString_deleteMembers buf \<and>
     ((fst r = UA_STATUSCODE_GOOD \<and> fst (snd r) = c1\<lparr>sent := sent c1 @ drop (nW + n) (data buf)\<rparr>) \<or>
      (fst r = UA_STATUSCODE_BADCONNECTIONCLOSED \<and>
        (\<exists>m. fst (snd r) = connection_close (c1\<lparr>sent := sent c1 @ take m (drop (nW + n) (data buf))\<rparr>))))" .
      have a: "take n (drop nW (data buf)) @ drop (nW + n) (data buf) = drop nW (data buf)"
        by (metis add.commute append_take_drop_id drop_drop)
      have b: "\<And>m. take n (drop nW (data buf)) @ take m (drop (nW + n) (data buf)) = take (n + m) (drop nW (data buf))"
        by (metis add.commute drop_drop take_add)
      from IH2 show ?thesis
        unfolding c1_def tk by (auto simp: a b)
    next
      case False
      with nonneg body have r: "r = (UA_STATUSCODE_GOOD, c1, UA_ByteString_deleteMembers buf)"
        by (auto simp: Let_def n_def c1_def)
      from False have "take n (drop nW (data buf)) = drop nW (data buf)"
        by (simp add: buf_length_def)
      with r show ?thesis unfolding c1_def tk by simp
    qed
  qed
qed

text \<open>While every \<open>send\<close> fails with \<open>AGAIN\<close> the loop does not return.\<close>

lemma write_loop_always_again:
  assumes "write_loop os k c buf nW = Some r"
  shows "os \<noteq> always_again"
proof (rule write_loop.raw_induct[where P = "\<lambda>os k c buf nW r. os \<noteq> always_again", OF _ assms], goal_cases)
  case (1 wl os k c buf nW r)
  show ?case
  proof
    assume "os = always_again"
    with "1"(2) have "wl os (k + 1) c buf nW = Some r"
      by (simp add: always_again_def)
    from "1"(1)[OF this] \<open>os = always_again\<close> show False by simp
  qed
qed

text \<open>If progress never stops for good, the loop returns: by induction on the bytes left,
  and for each on the distance to the next call of \<open>send\<close> that makes progress.\<close>

lemma write_loop_returns:
  assumes prog: "\<forall>k. \<exists>j\<ge>k. send_progress (os j)"
  shows "\<exists>r. write_loop os k c buf nW = Some r"
proof (induction "buf_length buf - nW" arbitrary: k c nW rule: less_induct)
  case less
  note outer = less.hyps
  obtain j where j: "k \<le> j" "send_progress (os j)" using prog by blast
  from j show ?case
  proof (induction "j - k" arbitrary: k c rule: less_induct)
    case less
    note inner = less.hyps
    show ?case
    proof (cases "fst (os k) < 0")
      case neg: True
      show ?thesis
      proof (cases "snd (os k) \<noteq> INTERRUPTED \<and> snd (os k) \<noteq> AGAIN")
        case True
        with neg show ?thesis by (subst write_loop.simps) (simp add: Let_def)
      next
        case False
        with neg have "\<not> send_progress (os k)" by (auto simp: send_progress_def)
        with less.prems have "k \<noteq> j" by auto
        with less.prems have "j - (k + 1) < j - k" "k + 1 \<le> j" by auto
        from inner[OF this(1) this(2) less.prems(2)] obtain r where
          r: "write_loop os (k + 1) c buf nW = Some r" by blast
        from neg False have "write_loop os k c buf nW = write_loop os (k + 1) c buf nW"
          by (subst write_loop.simps) (auto simp: Let_def)
        with r have "write_loop os k c buf nW = Some r" by simp
        then show ?thesis ..
      qed
    next
      case nonneg: False
      define n where "n = nat (fst (os k))"
      define c1 where "c1 = c\<lparr>sent := sent c @ take n (take (buf_length buf - nW) (drop nW (data buf)))\<rparr>"
      show ?thesis
      proof (cases "nW + n < buf_length buf")
        case False
        with nonneg show ?thesis by (subst write_loop.simps) (simp add: Let_def n_def)
      next
        case True
        have "\<exists>r. write_loop os (k + 1) c1 buf (nW + n) = Some r"
        proof (cases "n = 0")
          case True
          with nonneg have "\<not> send_progress (os k)" by (auto simp: send_progress_def n_def)
          with less.prems have "k \<noteq> j" by auto
          with less.prems have "j - (k + 1) < j - k" "k + 1 \<le> j" by auto
          from inner[OF this(1) this(2) less.prems(2)] True show ?thesis by simp
        next
          case False
          with True have "buf_length buf - (nW + n) < buf_length buf - nW" by simp
          from outer[OF this] show ?thesis .
        qed
        then obtain r where r: "write_loop os (k + 1) c1 buf (nW + n) = Some r" by blast
        from nonneg True have "write_loop os k c buf nW = write_loop os (k + 1) c1 buf (nW + n)"
          by (subst write_loop.simps) (simp add: Let_def n_def c1_def)
        with r have "write_loop os k c buf nW = Some r" by simp
        then show ?thesis ..
      qed
    qed
  qed
qed

text \<open>Claim C9, as amended. Every call of \<open>connection_write\<close> that returns has either
  handed the entire buffer to the socket, in order, and returns Good, leaving the
  connection's state as it was, or has closed the connection (state
  \<open>UA_CONNECTION_CLOSED\<close>, after a prefix of the buffer) and returns
  BadConnectionClosed; on both return paths \<open>UA_ByteString_deleteMembers\<close> was called on
  the buffer exactly once. The call does return whenever \<open>send\<close> keeps making progress
  (it takes at least one byte or fails for good, again and again). It need not return
  otherwise: \<open>INTERRUPTED\<close> and \<open>AGAIN\<close> are retried without bound.\<close>

theorem connection_write_good_or_closed:
  "(\<forall>rc connection' buf'.
      connection_write os connection buf = Some (rc, connection', buf') \<longrightarrow>
        buf' = UA_ByteString_deleteMembers buf \<and> released buf' = released buf + 1 \<and>
        (rc = UA_STATUSCODE_GOOD \<and>
           connection' = connection\<lparr>sent := sent connection @ data buf\<rparr> \<or>
         rc = UA_STATUSCODE_BADCONNECTIONCLOSED \<and>
           state connection' = UA_CONNECTION_CLOSED \<and>
           (\<exists>m. sent connection' = sent connection @ take m (data buf)))) \<and>
   ((\<forall>k. \<exists>j\<ge>k. send_progress (os j)) \<longrightarrow>
      (\<exists>r. connection_write os connection buf = Some r))"
proof (intro conjI allI impI)
  fix rc connection' buf'
  assume ret: "connection_write os connection buf = Some (rc, connection', buf')"
  then have "write_loop os 0 connection buf 0 = Some (rc, connection', buf')"
    by (simp add: connection_write_def)
  from write_loop_partial[OF this]
  have buf': "buf' = UA_ByteString_deleteMembers buf"
    and rc: "rc = UA_STATUSCODE_GOOD \<and>
               connection' = connection\<lparr>sent := sent connection @ data buf\<rparr> \<or>
             rc = UA_STATUSCODE_BADCONNECTIONCLOSED \<and>
               (\<exists>m. connection' =
                  connection_close (connection\<lparr>sent := sent connection @ take m (data buf)\<rparr>))"
    by simp_all
  show "buf' = UA_ByteString_deleteMembers buf" by (rule buf')
  show "released buf' = released buf + 1"
    by (simp add: buf' UA_ByteString_deleteMembers_def)
  from rc show "rc = UA_STATUSCODE_GOOD \<and>
           connection' = connection\<lparr>sent := sent connection @ data buf\<rparr> \<or>
         rc = UA_STATUSCODE_BADCONNECTIONCLOSED \<and>
           state connection' = UA_CONNECTION_CLOSED \<and>
           (\<exists>m. sent connection' = sent connection @ take m (data buf))"
    by (auto simp: connection_close_def)
next
  assume "\<forall>k. \<exists>j\<ge>k. send_progress (os j)"
  then show "\<exists>r. connection_write os connection buf = Some r"
    unfolding connection_write_def by (rule write_loop_returns)
qed

text \<open>Two runs on a buffer of three bytes: a busy socket that then takes two bytes per
  call gives Good with all three bytes sent; a socket that fails for good on the second
  call gives BadConnectionClosed with one byte sent and the connection closed. The buffer
  is released once in both.\<close>

theorem connection_write_good_or_closed_witness:
  "(\<forall>k. \<exists>j\<ge>k. send_progress (again_then_two_per_call j)) \<and>
   connection_write again_then_two_per_call established three_bytes =
     Some (UA_STATUSCODE_GOOD, established\<lparr>sent := [1, 2, 3]\<rparr>, \<lparr>data = [], released = 1\<rparr>) \<and>
   connection_write closed_on_second established three_bytes =
     Some (UA_STATUSCODE_BADCONNECTIONCLOSED,
           \<lparr>state = UA_CONNECTION_CLOSED, sockfd = 3, sent = [1], shutdowns = 1\<rparr>,
           \<lparr>data = [], released = 1\<rparr>)"
proof -
  have progress: "\<forall>k. \<exists>j\<ge>k. send_progress (again_then_two_per_call j)"
  proof
    fix k
    have "k \<le> Suc k \<and> send_progress (again_then_two_per_call (Suc k))"
      by (simp add: send_progress_def again_then_two_per_call_def)
    then show "\<exists>j\<ge>k. send_progress (again_then_two_per_call j)" by blast
  qed
  note claim = connection_write_good_or_closed[of again_then_two_per_call established three_bytes]
  from claim progress obtain rc connection' buf' where
    ret: "connection_write again_then_two_per_call established three_bytes =
            Some (rc, connection', buf')"
    by (metis prod_cases3)
  have run: "connection_write again_then_two_per_call established three_bytes =
     Some (UA_STATUSCODE_GOOD, established\<lparr>sent := [1, 2, 3]\<rparr>, UA_ByteString_deleteMembers three_bytes)"
    by (simp add: connection_write_def write_loop.simps again_then_two_per_call_def
        established_def three_bytes_def buf_length_def Let_def)
  with ret have "rc = UA_STATUSCODE_GOOD" "connection' = established\<lparr>sent := [1, 2, 3]\<rparr>"
    "buf' = UA_ByteString_deleteMembers three_bytes" by simp_all
  moreover from claim ret have "released buf' = released three_bytes + 1" by blast
  ultimately have good: "connection_write again_then_two_per_call established three_bytes =
     Some (UA_STATUSCODE_GOOD, established\<lparr>sent := [1, 2, 3]\<rparr>, \<lparr>data = [], released = 1\<rparr>)"
    using ret by (simp add: UA_ByteString_deleteMembers_def three_bytes_def)
  have closed: "connection_write closed_on_second established three_bytes =
     Some (UA_STATUSCODE_BADCONNECTIONCLOSED,
           \<lparr>state = UA_CONNECTION_CLOSED, sockfd = 3, sent = [1], shutdowns = 1\<rparr>,
           \<lparr>data = [], released = 1\<rparr>)"
    by (simp add: connection_write_def write_loop.simps closed_on_second_def established_def
        three_bytes_def buf_length_def UA_ByteString_deleteMembers_def Let_def
        connection_close_def)
  from progress good closed show ?thesis by blast
qed

text \<open>Claim C9 as stated fails where \<open>send\<close> answers \<open>AGAIN\<close> for ever: the call neither
  returns Good nor BadConnectionClosed, it does not return.\<close>

theorem connection_write_always_again_never_returns:
  "connection_write always_again established three_bytes = None"
proof (cases "connection_write always_again established three_bytes")
  case None
  then show ?thesis .
next
  case (Some r)
  then have "always_again \<noteq> always_again"
    unfolding connection_write_def by (rule write_loop_always_again)
  then show ?thesis by simp
qed

section \<open>Properties of the reference index\<close>

lemma install_endpoint_apply:
  "install_endpoint store holder r x =
     (if x = holder then map_option (\<lambda>n. n\<lparr>references := references n @ [r]\<rparr>) (store holder)
      else store x)"
  by (simp add: install_endpoint_def split: option.splits)

lemma consistent_holds_iff:
  assumes c: "reference_lists_consistent store"
    and s: "store a = Some na" and t: "store b = Some nb"
  shows "holds_reference store a \<lparr>referenceTypeId = rt, targetId = b, isForward = fwd\<rparr> \<longleftrightarrow>
         holds_reference store b \<lparr>referenceTypeId = rt, targetId = a, isForward = (\<not> fwd)\<rparr>"
proof
  assume "holds_reference store a \<lparr>referenceTypeId = rt, targetId = b, isForward = fwd\<rparr>"
  with s have "\<lparr>referenceTypeId = rt, targetId = b, isForward = fwd\<rparr> \<in> set (references na)"
    by (simp add: holds_reference_def)
  with c s t have "opposing a \<lparr>referenceTypeId = rt, targetId = b, isForward = fwd\<rparr> \<in> set (references nb)"
    unfolding reference_lists_consistent_def by fastforce
  with t show "holds_reference store b \<lparr>referenceTypeId = rt, targetId = a, isForward = (\<not> fwd)\<rparr>"
    by (simp add: holds_reference_def opposing_def)
next
  assume "holds_reference store b \<lparr>referenceTypeId = rt, targetId = a, isForward = (\<not> fwd)\<rparr>"
  with t have "\<lparr>referenceTypeId = rt, targetId = a, isForward = (\<not> fwd)\<rparr> \<in> set (references nb)"
    by (simp add: holds_reference_def)
  with c s t have "opposing b \<lparr>referenceTypeId = rt, targetId = a, isForward = (\<not> fwd)\<rparr> \<in> set (references na)"
    unfolding reference_lists_consistent_def by fastforce
  with s show "holds_reference store a \<lparr>referenceTypeId = rt, targetId = b, isForward = fwd\<rparr>"
    by (simp add: holds_reference_def opposing_def)
qed

lemma count_list_distinct:
  "distinct xs \<Longrightarrow> x \<in> set xs \<Longrightarrow> count_list xs x = 1"
  by (induction xs) auto

lemma count_one_if_held:
  assumes "reference_lists_consistent store" "holds_reference store a r"
  shows "count_reference store a r = 1"
proof -
  from assms(2) obtain n where n: "store a = Some n" "r \<in> set (references n)"
    by (auto simp: holds_reference_def split: option.splits)
  with assms(1) have "distinct (references n)"
    unfolding reference_lists_consistent_def by blast
  with n show ?thesis
    by (simp add: count_reference_def count_list_distinct)
qed

lemma AddReference_duplicate_unchanged:
  assumes "AddReference store sourceId refTypeId target forward = (rc, store')"
    and "rc \<noteq> Good"
  shows "store' = store"
  using assms by (auto simp: AddReference_def Let_def split: if_splits)

lemma AddReference_installs:
  assumes ex: "store sourceId = Some ns" "store target = Some nt"
    and ok: "AddReference store sourceId refTypeId target forward = (Good, store')"
  shows "\<not> holds_reference store sourceId
             \<lparr>referenceTypeId = refTypeId, targetId = target, isForward = forward\<rparr>"
    and "\<not> holds_reference store target
             \<lparr>referenceTypeId = refTypeId, targetId = sourceId, isForward = (\<not> forward)\<rparr>"
    and "store' = install_endpoint (install_endpoint store sourceId
             \<lparr>referenceTypeId = refTypeId, targetId = target, isForward = forward\<rparr>) target
             \<lparr>referenceTypeId = refTypeId, targetId = sourceId, isForward = (\<not> forward)\<rparr>"
  using ok by (auto simp: AddReference_def Let_def opposing_def split: if_splits)

lemma install_pair_consistent:
  fixes store :: NodeStore
  defines "e \<equiv> \<lambda>rt b fwd. \<lparr>referenceTypeId = rt, targetId = b, isForward = fwd\<rparr>"
  assumes c: "reference_lists_consistent store"
    and ex: "store a = Some na" "store b = Some nb"
    and fresh: "\<not> holds_reference store a (e rt b fwd)" "\<not> holds_reference store b (e rt a (\<not> fwd))"
  shows "reference_lists_consistent
           (install_endpoint (install_endpoint store a (e rt b fwd)) b (e rt a (\<not> fwd)))"
  unfolding reference_lists_consistent_def
proof (intro allI impI)
  fix holder n
  let ?s = "install_endpoint (install_endpoint store a (e rt b fwd)) b (e rt a (\<not> fwd))"
  assume h: "?s holder = Some n"
  have old: "\<And>x m. store x = Some m \<Longrightarrow> distinct (references m) \<and>
        (\<forall>r \<in> set (references m). \<forall>t. store (targetId r) = Some t \<longrightarrow>
           opposing x r \<in> set (references t))"
    using c unfolding reference_lists_consistent_def by blast
  have grow: "\<And>x m. store x = Some m \<Longrightarrow> \<exists>m'. ?s x = Some m' \<and> set (references m) \<subseteq> set (references m')"
    by (auto simp: install_endpoint_apply)
  have shrink: "\<And>x m'. ?s x = Some m' \<Longrightarrow> \<exists>m. store x = Some m \<and>
       set (references m') \<subseteq> set (references m) \<union> {r. (x = a \<and> r = e rt b fwd) \<or> (x = b \<and> r = e rt a (\<not> fwd))}"
    by (auto simp: install_endpoint_apply split: if_splits)
  have A: "\<exists>m. ?s a = Some m \<and> e rt b fwd \<in> set (references m)"
    using ex by (auto simp: install_endpoint_apply)
  have B: "\<exists>m. ?s b = Some m \<and> e rt a (\<not> fwd) \<in> set (references m)"
    using ex by (auto simp: install_endpoint_apply)
  have d: "distinct (references n)"
    using h ex fresh old
    by (auto simp: install_endpoint_apply holds_reference_def e_def split: if_splits)
  have sym: "\<forall>r \<in> set (references n). \<forall>t. ?s (targetId r) = Some t \<longrightarrow>
           opposing holder r \<in> set (references t)"
  proof (intro ballI allI impI)
    fix r t
    assume r: "r \<in> set (references n)" and t: "?s (targetId r) = Some t"
    from shrink[OF h] obtain m where m: "store holder = Some m"
      "set (references n) \<subseteq> set (references m) \<union> {r. (holder = a \<and> r = e rt b fwd) \<or> (holder = b \<and> r = e rt a (\<not> fwd))}"
      by blast
    from shrink[OF t] obtain tm where tm: "store (targetId r) = Some tm" by blast
    show "opposing holder r \<in> set (references t)"
    proof (cases "r \<in> set (references m)")
      case True
      with old[OF m(1)] tm have "opposing holder r \<in> set (references tm)" by blast
      with grow[OF tm] t show ?thesis by auto
    next
      case False
      with r m(2) have "(holder = a \<and> r = e rt b fwd) \<or> (holder = b \<and> r = e rt a (\<not> fwd))"
        by blast
      then show ?thesis
      proof
        assume hr: "holder = a \<and> r = e rt b fwd"
        then have "targetId r = b" "opposing holder r = e rt a (\<not> fwd)"
          by (simp_all add: e_def opposing_def)
        with t B show ?thesis by auto
      next
        assume hr: "holder = b \<and> r = e rt a (\<not> fwd)"
        then have "targetId r = a" "opposing holder r = e rt b fwd"
          by (simp_all add: e_def opposing_def)
        with t A show ?thesis by auto
      qed
    qed
  qed
  from d sym show "distinct (references n) \<and>
        (\<forall>r \<in> set (references n). \<forall>t. ?s (targetId r) = Some t \<longrightarrow>
           opposing holder r \<in> set (references t))" by blast
qed

text \<open>Claim C8. In a store whose reference lists are consistent, for every tuple
  \<open>(sourceId, refTypeId, target, forward)\<close> whose three nodes exist, AddReference of the
  tuple followed by AddReference of the same tuple leaves exactly one reference pair in
  the store (the source holds the entry once and the target holds the opposing entry
  once), and the second call returns \<open>BadDuplicateReferenceNotAllowed\<close> and changes
  nothing. The first call returns Good or, where the pair was there before,
  \<open>BadDuplicateReferenceNotAllowed\<close>; the store stays consistent.\<close>

theorem AddReference_twice_one_pair:
  assumes consistent: "reference_lists_consistent store"
    and exist: "store sourceId \<noteq> None" "store refTypeId \<noteq> None" "store target \<noteq> None"
    and first: "AddReference store sourceId refTypeId target forward = (rc1, store1)"
    and second: "AddReference store1 sourceId refTypeId target forward = (rc2, store2)"
  shows "rc2 = BadDuplicateReferenceNotAllowed \<and> store2 = store1 \<and>
         count_reference store2 sourceId
           \<lparr>referenceTypeId = refTypeId, targetId = target, isForward = forward\<rparr> = 1 \<and>
         count_reference store2 target
           \<lparr>referenceTypeId = refTypeId, targetId = sourceId, isForward = (\<not> forward)\<rparr> = 1 \<and>
         (rc1 = Good \<or> rc1 = BadDuplicateReferenceNotAllowed) \<and>
         reference_lists_consistent store2"
proof -
  let ?e = "\<lparr>referenceTypeId = refTypeId, targetId = target, isForward = forward\<rparr>"
  let ?e' = "\<lparr>referenceTypeId = refTypeId, targetId = sourceId, isForward = (\<not> forward)\<rparr>"
  from exist obtain ns nt where ns: "store sourceId = Some ns" and nt: "store target = Some nt"
    by auto
  have rc1: "rc1 = Good \<or> rc1 = BadDuplicateReferenceNotAllowed"
    using first exist by (auto simp: AddReference_def Let_def split: if_splits)
  have after: "reference_lists_consistent store1 \<and> holds_reference store1 sourceId ?e \<and>
               holds_reference store1 target ?e' \<and>
               store1 sourceId \<noteq> None \<and> store1 refTypeId \<noteq> None \<and> store1 target \<noteq> None"
  proof (cases "rc1 = Good")
    case True
    with first have ok: "AddReference store sourceId refTypeId target forward = (Good, store1)"
      by simp
    note inst = AddReference_installs[OF ns nt ok]
    have "reference_lists_consistent store1"
      unfolding inst(3) by (rule install_pair_consistent[OF consistent ns nt inst(1) inst(2)])
    moreover have "holds_reference store1 sourceId ?e" "holds_reference store1 target ?e'"
      unfolding inst(3) using ns nt
      by (auto simp: holds_reference_def install_endpoint_apply)
    moreover have "store1 sourceId \<noteq> None" "store1 refTypeId \<noteq> None" "store1 target \<noteq> None"
      unfolding inst(3) using exist by (auto simp: install_endpoint_apply)
    ultimately show ?thesis by blast
  next
    case False
    with first have same: "store1 = store"
      by (rule AddReference_duplicate_unchanged)
    from False rc1 first exist have
      "holds_reference store sourceId ?e \<or> holds_reference store target ?e'"
      by (auto simp: AddReference_def Let_def opposing_def split: if_splits)
    with consistent_holds_iff[OF consistent ns nt, of refTypeId forward]
    have "holds_reference store sourceId ?e" "holds_reference store target ?e'" by blast+
    with same consistent exist show ?thesis by simp
  qed
  then have dup: "AddReference store1 sourceId refTypeId target forward =
                    (BadDuplicateReferenceNotAllowed, store1)"
    by (simp add: AddReference_def Let_def)
  with second have r2: "rc2 = BadDuplicateReferenceNotAllowed" "store2 = store1" by simp_all
  from after have "count_reference store1 sourceId ?e = 1" "count_reference store1 target ?e' = 1"
    by (simp_all add: count_one_if_held)
  with r2 rc1 after show ?thesis by simp
qed

lemma three_nodes_consistent: "reference_lists_consistent three_nodes"
  by (auto simp: reference_lists_consistent_def three_nodes_def bare_node_def split: if_splits)

text \<open>The reference of the test \<open>AddVariableNode\<close>, from the Objects folder to the variable
  by Organizes, added twice.\<close>

theorem AddReference_twice_one_pair_witness:
  "reference_lists_consistent three_nodes \<and>
   three_nodes ObjectsFolder \<noteq> None \<and> three_nodes Organizes \<noteq> None \<and>
   three_nodes the_answer \<noteq> None \<and>
   fst (AddReference three_nodes ObjectsFolder Organizes the_answer True) = Good \<and>
   fst (AddReference (snd (AddReference three_nodes ObjectsFolder Organizes the_answer True))
          ObjectsFolder Organizes the_answer True) = BadDuplicateReferenceNotAllowed \<and>
   count_reference (snd (AddReference three_nodes ObjectsFolder Organizes the_answer True))
     ObjectsFolder \<lparr>referenceTypeId = Organizes, targetId = the_answer, isForward = True\<rparr> = 1 \<and>
   count_reference (snd (AddReference three_nodes ObjectsFolder Organizes the_answer True))
     the_answer \<lparr>referenceTypeId = Organizes, targetId = ObjectsFolder, isForward = False\<rparr> = 1"
proof -
  have ex: "three_nodes ObjectsFolder \<noteq> None" "three_nodes Organizes \<noteq> None"
    "three_nodes the_answer \<noteq> None"
    by (simp_all add: three_nodes_def ObjectsFolder_def Organizes_def the_answer_def)
  have good: "fst (AddReference three_nodes ObjectsFolder Organizes the_answer True) = Good"
    by (simp add: AddReference_def Let_def holds_reference_def opposing_def three_nodes_def
        bare_node_def ObjectsFolder_def Organizes_def the_answer_def)
  from AddReference_twice_one_pair[OF three_nodes_consistent ex
      surjective_pairing surjective_pairing]
  have "fst (AddReference (snd (AddReference three_nodes ObjectsFolder Organizes the_answer True))
          ObjectsFolder Organizes the_answer True) = BadDuplicateReferenceNotAllowed"
    and "snd (AddReference (snd (AddReference three_nodes ObjectsFolder Organizes the_answer True))
          ObjectsFolder Organizes the_answer True) =
         snd (AddReference three_nodes ObjectsFolder Organizes the_answer True)"
    and "count_reference (snd (AddReference (snd (AddReference three_nodes ObjectsFolder Organizes the_answer True))
          ObjectsFolder Organizes the_answer True))
     ObjectsFolder \<lparr>referenceTypeId = Organizes, targetId = the_answer, isForward = True\<rparr> = 1"
    and "count_reference (snd (AddReference (snd (AddReference three_nodes ObjectsFolder Organizes the_answer True))
          ObjectsFolder Organizes the_answer True))
     the_answer \<lparr>referenceTypeId = Organizes, targetId = ObjectsFolder, isForward = (\<not> True)\<rparr> = 1"
    by blast+
  with three_nodes_consistent ex good show ?thesis by simp
qed

end
